theory Spec2Isabelle
  imports Complex_Main "HOL-Library.Multiset"
begin

section \<open>Strings\<close>

text \<open>
  A Python \<open>str\<close> is a sequence of Unicode code points, and \<open>len\<close>, slicing and the
  regular expressions of \<open>app.py\<close> all count code points. A string is therefore a list of
  natural numbers, one per code point; \<open>str\<close> turns an ASCII literal into such a list.
\<close>

type_synonym pystr = "nat list"

definition str :: "string \<Rightarrow> pystr" where
  "str cs = map of_char cs"

text \<open>
  The characters for which \<open>str.isspace\<close> holds. The class \<open>\s\<close> of a \<open>str\<close> pattern,
  \<open>str.split()\<close> without separator and \<open>str.strip()\<close> without argument all use this
  one test.
\<close>

definition isspace :: "nat \<Rightarrow> bool" where
  "isspace c \<longleftrightarrow>
     (9 \<le> c \<and> c \<le> 13) \<or> (28 \<le> c \<and> c \<le> 32) \<or> c = 133 \<or> c = 160 \<or> c = 5760 \<or>
     (8192 \<le> c \<and> c \<le> 8202) \<or> c = 8232 \<or> c = 8233 \<or> c = 8239 \<or> c = 8287 \<or>
     c = 12288"

text \<open>
  \<open>w.lower()\<close> as \<open>clean_tokens\<close> applies it, to the pieces of a text in which every
  character outside \<open>[A-Za-z0-9\s']\<close> has been replaced: only ASCII letters, digits and
  apostrophes reach it (\<open>piece_chars\<close> below), and on them, as on all code points below
  256, it is \<open>str.lower\<close>: the ASCII capitals and the Latin-1 capitals (all of
  \<open>0xC0..0xDE\<close> but the multiplication sign) move up by 32. It is not the lower-casing of
  arbitrary text, which the summary selector needs and takes as a parameter.
\<close>

definition lower_char :: "nat \<Rightarrow> nat" where
  "lower_char c =
     (if 65 \<le> c \<and> c \<le> 90 then c + 32
      else if 192 \<le> c \<and> c \<le> 222 \<and> c \<noteq> 215 then c + 32
      else c)"

definition lower :: "pystr \<Rightarrow> pystr" where
  "lower s = map lower_char s"

text \<open>
  \<open>str.isdigit()\<close>: the string is not empty and every character is a digit. Below 256
  the digits are \<open>0..9\<close> and the superscripts one, two and three.
\<close>

definition isdigit_char :: "nat \<Rightarrow> bool" where
  "isdigit_char c \<longleftrightarrow> (48 \<le> c \<and> c \<le> 57) \<or> c = 178 \<or> c = 179 \<or> c = 185"

definition isdigit :: "pystr \<Rightarrow> bool" where
  "isdigit s \<longleftrightarrow> s \<noteq> [] \<and> list_all isdigit_char s"

text \<open>\<open>s.strip(chars)\<close>, with the character set given as a test.\<close>

definition strip_with :: "(nat \<Rightarrow> bool) \<Rightarrow> pystr \<Rightarrow> pystr" where
  "strip_with p s = rev (dropWhile p (rev (dropWhile p s)))"

definition strip :: "pystr \<Rightarrow> pystr" where
  "strip s = strip_with isspace s"

text \<open>
  \<open>s.split()\<close>: the maximal runs of characters that are not whitespace, in order.
  \<open>cur\<close> holds the run being read, last character first.
\<close>

fun split_run :: "pystr \<Rightarrow> pystr \<Rightarrow> pystr list" where
  "split_run cur [] = (if cur = [] then [] else [rev cur])"
| "split_run cur (c # cs) =
     (if isspace c then (if cur = [] then split_run [] cs else rev cur # split_run [] cs)
      else split_run (c # cur) cs)"

definition split :: "pystr \<Rightarrow> pystr list" where
  "split s = split_run [] s"

text \<open>\<open>sep.join(xs)\<close>.\<close>

fun join :: "pystr \<Rightarrow> pystr list \<Rightarrow> pystr" where
  "join sep [] = []"
| "join sep [x] = x"
| "join sep (x # y # ys) = x @ sep @ join sep (y # ys)"

section \<open>Tokens\<close>

definition STOPWORDS_words :: "string list" where
  "STOPWORDS_words =
    [''a'', ''an'', ''and'', ''the'', ''this'', ''that'', ''those'', ''these'',
     ''to'', ''of'', ''for'', ''from'', ''on'', ''in'', ''with'', ''as'',
     ''at'', ''by'', ''it'', ''its'', ''be'', ''is'', ''are'', ''was'',
     ''were'', ''am'', ''been'', ''being'', ''do'', ''does'', ''did'', ''doing'',
     ''have'', ''has'', ''had'', ''having'', ''i'', ''you'', ''he'', ''she'',
     ''they'', ''we'', ''him'', ''her'', ''them'', ''us'', ''our'', ''your'',
     ''their'', ''my'', ''mine'', ''yours'', ''his'', ''hers'', ''theirs'', ''myself'',
     ''yourself'', ''themselves'', ''itself'', ''themselves'', ''ourselves'',
     ''about'', ''above'', ''after'',
     ''again'', ''against'', ''all'', ''also'', ''among'', ''around'', ''because'', ''before'',
     ''below'', ''between'', ''both'', ''but'', ''can'', ''cannot'', ''could'', ''did'',
     ''do'', ''does'', ''doing'', ''down'', ''during'', ''each'', ''few'', ''further'',
     ''here'', ''how'', ''if'', ''into'', ''more'', ''most'', ''no'', ''nor'',
     ''not'', ''only'', ''other'', ''out'', ''over'', ''own'', ''same'', ''should'',
     ''so'', ''some'', ''such'', ''than'', ''then'', ''there'', ''through'', ''too'',
     ''under'', ''until'', ''up'', ''very'', ''what'', ''when'', ''where'', ''which'',
     ''who'', ''whom'', ''why'', ''will'', ''would'']"

definition STOPWORDS :: "pystr set" where
  "STOPWORDS = set (map str STOPWORDS_words)"

text \<open>The character class \<open>[A-Za-z0-9\s']\<close>; \<open>re.sub\<close> puts a space for every other character.\<close>

definition word_class :: "nat \<Rightarrow> bool" where
  "word_class c \<longleftrightarrow>
     (65 \<le> c \<and> c \<le> 90) \<or> (97 \<le> c \<and> c \<le> 122) \<or> (48 \<le> c \<and> c \<le> 57) \<or> isspace c \<or> c = 39"

definition sub_nonword :: "pystr \<Rightarrow> pystr" where
  "sub_nonword text = map (\<lambda>c. if word_class c then c else 32) text"

definition clean_tokens :: "pystr \<Rightarrow> pystr list" where
  "clean_tokens text =
     (let text' = sub_nonword text;
          words = map (\<lambda>w. strip_with (\<lambda>c. c = 39) (lower w)) (split text')
      in filter (\<lambda>w. w \<noteq> [] \<and> w \<notin> STOPWORDS \<and> \<not> isdigit w) words)"

section \<open>Counting and ranking\<close>

text \<open>
  \<open>collections.Counter\<close> is a dictionary: it keeps its keys in the order of their first
  insertion. The model is an association list in that order. \<open>Counter(xs)\<close> adds the
  elements one by one, from the left.
\<close>

fun counter_add :: "'a \<Rightarrow> ('a \<times> nat) list \<Rightarrow> ('a \<times> nat) list" where
  "counter_add x [] = [(x, 1)]"
| "counter_add x ((y, c) # ys) =
     (if x = y then (y, c + 1) # ys else (y, c) # counter_add x ys)"

definition Counter :: "'a list \<Rightarrow> ('a \<times> nat) list" where
  "Counter xs = fold counter_add xs []"

text \<open>\<open>freqs[t]\<close>: a \<open>Counter\<close> answers 0 for a key it does not hold.\<close>

fun counter_get :: "('a \<times> nat) list \<Rightarrow> 'a \<Rightarrow> nat" where
  "counter_get [] x = 0"
| "counter_get ((y, c) # ys) x = (if x = y then c else counter_get ys x)"

text \<open>
  \<open>sorted(xs, key=f, reverse=True)\<close> and \<open>xs.sort(key=f, reverse=True)\<close>: Python's sort is
  stable, and with \<open>reverse=True\<close> it reverses the list, sorts it in ascending order and
  reverses the result, so that elements with equal keys keep their order.
\<close>

definition sort_reverse :: "('a \<Rightarrow> 'k::linorder) \<Rightarrow> 'a list \<Rightarrow> 'a list" where
  "sort_reverse f xs = rev (sort_key f (rev xs))"

text \<open>
  \<open>Counter.most_common(n)\<close> is \<open>heapq.nlargest(n, items, key=count)\<close>, which the library
  documents as \<open>sorted(items, key=count, reverse=True)[:n]\<close>. \<open>n\<close> is a natural number:
  the ranking is asked for with \<open>n \<ge> 0\<close>.
\<close>

definition most_common :: "nat \<Rightarrow> ('a \<times> nat) list \<Rightarrow> ('a \<times> nat) list" where
  "most_common n c = take n (sort_reverse snd c)"

definition keyword_top_n :: "pystr \<Rightarrow> nat \<Rightarrow> (pystr \<times> nat) list" where
  "keyword_top_n text n = most_common n (Counter (clean_tokens text))"

section \<open>Sentences\<close>

definition is_terminator :: "nat \<Rightarrow> bool" where
  "is_terminator c \<longleftrightarrow> c = 46 \<or> c = 33 \<or> c = 63"

text \<open>
  \<open>re.split(r'(?<=[\.\!\?])\s+', text)\<close>. A match is a maximal run of whitespace that
  stands right after a full stop, an exclamation mark or a question mark; the pieces
  between the matches are returned, the last one too, also when it is empty.
  \<open>prev\<close> says whether the character just read is one of the three marks, \<open>cur\<close> holds
  the piece being read, last character first.
\<close>

function re_split_run :: "bool \<Rightarrow> pystr \<Rightarrow> pystr \<Rightarrow> pystr list" where
  "re_split_run prev cur [] = [rev cur]"
| "re_split_run prev cur (c # cs) =
     (if prev \<and> isspace c then rev cur # re_split_run False [] (dropWhile isspace cs)
      else re_split_run (is_terminator c) (c # cur) cs)"
  by pat_completeness auto
termination
  by (relation "measure (\<lambda>(prev, cur, rest). length rest)")
     (auto simp: le_imp_less_Suc length_dropWhile_le)

definition re_split :: "pystr \<Rightarrow> pystr list" where
  "re_split text = re_split_run False [] text"

definition split_sentences :: "pystr \<Rightarrow> pystr list" where
  "split_sentences text =
     (let parts = re_split text
      in map strip (filter (\<lambda>p. strip p \<noteq> []) parts))"

section \<open>Scores\<close>

text \<open>
  The score of a sentence is the floating-point value of
  \<open>sum(freqs[t] for t in toks) / (len(toks) ** 0.8)\<close>. Its two operands are natural
  numbers; the arithmetic on them is the parameter \<open>quot\<close>, a function into any linear
  order, so that every property below holds whatever the rounding of the division and of
  the power is. The divisor is at least 1, since the sentence has a token.
\<close>

fun score_loop ::
  "(nat \<Rightarrow> nat \<Rightarrow> 'r) \<Rightarrow> (pystr \<times> nat) list \<Rightarrow> pystr list \<Rightarrow> (pystr \<times> 'r) list" where
  "score_loop quot freqs [] = []"
| "score_loop quot freqs (s # ss) =
     (let toks = clean_tokens s
      in if toks = [] then score_loop quot freqs ss
         else (s, quot (sum_list (map (counter_get freqs) toks)) (length toks))
              # score_loop quot freqs ss)"

definition score_sentences ::
  "(nat \<Rightarrow> nat \<Rightarrow> 'r::linorder) \<Rightarrow> pystr list \<Rightarrow> (pystr \<times> 'r) list" where
  "score_sentences quot sentences =
     (let all_words = clean_tokens (join (str '' '') sentences)
      in if all_words = [] then []
         else sort_reverse snd (score_loop quot (Counter all_words) sentences))"

text \<open>
  The arithmetic of the formula, \<open>a / b ** 0.8\<close>, in the real numbers. Python computes it
  in double precision, which rounds this value and can part two sentences whose exact
  scores are equal (\<open>32 ** 0.8\<close> is \<open>16.000000000000004\<close> there, so that \<open>32 / 32 ** 0.8\<close>
  falls below \<open>2 / 1 ** 0.8\<close>). What depends on the order of the scores only is therefore
  proved for every \<open>quot\<close>; the value of a score is stated for \<open>score_quotient\<close>.
\<close>

definition score_quotient :: "nat \<Rightarrow> nat \<Rightarrow> real" where
  "score_quotient a b = real a / real b powr 0.8"

text \<open>
  A second instance, for running the functions on sentences with different numbers of
  tokens: the fifth power of that quotient, which is the rational number
  \<open>a ^ 5 / b ^ 4\<close> and orders the scores as the exact quotients do.
\<close>

definition exact_quot :: "nat \<Rightarrow> nat \<Rightarrow> rat" where
  "exact_quot a b = of_nat (a ^ 5) / of_nat (b ^ 4)"

section \<open>Summary bullets\<close>

text \<open>The bullet marker \<open>U+2022\<close> followed by a space.\<close>

definition bullet :: pystr where
  "bullet = [8226, 32]"

text \<open>
  The loop over the ranked sentences, with its two accumulators. \<open>k\<close> is a natural
  number: the summary is asked for with \<open>k \<ge> 0\<close>.

  \<open>s[:40].lower()\<close> lower-cases the raw text of a sentence, where every case mapping of
  Unicode can occur: a code point above 255 may change, one code point may become two,
  and a capital sigma is mapped by its context. That table is no part of this program,
  so \<open>str.lower\<close> is here the parameter \<open>low\<close>, any function from strings to strings,
  and whatever is proved of the selector is proved for every \<open>low\<close>.
\<close>

fun select_loop ::
  "(pystr \<Rightarrow> pystr) \<Rightarrow> nat \<Rightarrow> nat \<Rightarrow> nat \<Rightarrow> (pystr \<times> 'r) list \<Rightarrow> pystr list \<Rightarrow>
   pystr set \<Rightarrow> pystr list" where
  "select_loop low k min_len max_len [] bullets used = bullets"
| "select_loop low k min_len max_len ((s, sc) # ranked) bullets used =
     (if length s < min_len \<or> length s > max_len
      then select_loop low k min_len max_len ranked bullets used
      else let sig = low (take 40 s)
           in if sig \<in> used then select_loop low k min_len max_len ranked bullets used
              else let bullets' = bullets @ [bullet @ s];
                       used' = insert sig used
                   in if length bullets' \<ge> k then bullets'
                      else select_loop low k min_len max_len ranked bullets' used')"

definition extract_summary_bullets ::
  "(pystr \<Rightarrow> pystr) \<Rightarrow> (nat \<Rightarrow> nat \<Rightarrow> 'r::linorder) \<Rightarrow> pystr \<Rightarrow> nat \<Rightarrow> nat \<Rightarrow> nat \<Rightarrow>
   pystr list" where
  "extract_summary_bullets low quot text k min_len max_len =
     (let sents = split_sentences text;
          ranked = score_sentences quot sents;
          bullets = select_loop low k min_len max_len ranked [] {}
      in if bullets = [] \<and> sents \<noteq> [] then map (\<lambda>s. bullet @ s) (take k sents)
         else bullets)"

section \<open>The tokenizer as the specification words it\<close>

text \<open>
  The four steps of the specification, written from its words: (1) every character that is
  not an ASCII letter, a digit, whitespace or an apostrophe becomes a space; (2) the text
  is cut at runs of whitespace; (3) each piece is put in lower case and loses its leading
  and trailing apostrophes; (4) a piece is dropped when it is empty, consists of digits
  only, or is a stopword.
\<close>

definition ascii_letter :: "nat \<Rightarrow> bool" where
  "ascii_letter c \<longleftrightarrow> (65 \<le> c \<and> c \<le> 90) \<or> (97 \<le> c \<and> c \<le> 122)"

definition ascii_digit :: "nat \<Rightarrow> bool" where
  "ascii_digit c \<longleftrightarrow> 48 \<le> c \<and> c \<le> 57"

definition ascii_lower :: "nat \<Rightarrow> nat" where
  "ascii_lower c = (if 65 \<le> c \<and> c \<le> 90 then c + 32 else c)"

function words_spec :: "pystr \<Rightarrow> pystr list" where
  "words_spec s =
     (let r = dropWhile isspace s
      in if r = [] then []
         else takeWhile (\<lambda>c. \<not> isspace c) r # words_spec (dropWhile (\<lambda>c. \<not> isspace c) r))"
  by pat_completeness auto
termination
proof (relation "measure length")
  show "wf (measure length)" by simp
next
  fix s r :: pystr
  assume r: "r = dropWhile isspace s" and ne: "r \<noteq> []"
  then have "\<not> isspace (hd r)" using hd_dropWhile [of isspace s] by simp
  then have "length (dropWhile (\<lambda>c. \<not> isspace c) r) < length r"
    using ne by (cases r) (simp_all add: le_imp_less_Suc length_dropWhile_le)
  also have "length r \<le> length s" unfolding r by (rule length_dropWhile_le)
  finally show "(dropWhile (\<lambda>c. \<not> isspace c) r, s) \<in> measure length" by simp
qed

declare words_spec.simps [simp del]

text \<open>
  Step (3), the apostrophes: those at the start of a piece go, up to its first other
  character, and then those at its end, back to its last other character; a piece of
  apostrophes only becomes empty.
\<close>

fun drop_leading :: "nat \<Rightarrow> pystr \<Rightarrow> pystr" where
  "drop_leading q [] = []"
| "drop_leading q (c # cs) = (if c = q then drop_leading q cs else c # cs)"

fun drop_trailing :: "nat \<Rightarrow> pystr \<Rightarrow> pystr" where
  "drop_trailing q [] = []"
| "drop_trailing q (c # cs) =
     (if c = q \<and> drop_trailing q cs = [] then [] else c # drop_trailing q cs)"

definition strip_apostrophes :: "pystr \<Rightarrow> pystr" where
  "strip_apostrophes p = drop_trailing 39 (drop_leading 39 p)"

definition tokenize_spec :: "pystr \<Rightarrow> pystr list" where
  "tokenize_spec text =
     (let replaced = map (\<lambda>c. if ascii_letter c \<or> ascii_digit c \<or> isspace c \<or> c = 39
                               then c else 32) text;
          pieces = words_spec replaced;
          stripped = map (\<lambda>p. strip_apostrophes (map ascii_lower p)) pieces
      in filter (\<lambda>p. \<not> (p = [] \<or> list_all ascii_digit p \<or> p \<in> STOPWORDS)) stripped)"

section \<open>Notions used in the statements\<close>

text \<open>The position of the first occurrence of \<open>x\<close> in \<open>xs\<close>.\<close>

fun first_index :: "'a list \<Rightarrow> 'a \<Rightarrow> nat" where
  "first_index [] x = 0"
| "first_index (y # ys) x = (if x = y then 0 else Suc (first_index ys x))"



text \<open>
  The text holds a full stop, an exclamation mark or a question mark that is followed by
  a whitespace character.
\<close>

fun has_split_point :: "pystr \<Rightarrow> bool" where
  "has_split_point (a # b # cs) \<longleftrightarrow> is_terminator a \<and> isspace b \<or> has_split_point (b # cs)"
| "has_split_point cs \<longleftrightarrow> False"

text \<open>
  The dedup signature of a sentence, the sentence under a bullet, and the bullets that the
  loop over the ranked sentences accepts, before the fallback is looked at.
\<close>

definition signature :: "(pystr \<Rightarrow> pystr) \<Rightarrow> pystr \<Rightarrow> pystr" where
  "signature low s = low (take 40 s)"

definition unbullet :: "pystr \<Rightarrow> pystr" where
  "unbullet b = drop (length bullet) b"

definition walk_bullets ::
  "(pystr \<Rightarrow> pystr) \<Rightarrow> (nat \<Rightarrow> nat \<Rightarrow> 'r::linorder) \<Rightarrow> pystr \<Rightarrow> nat \<Rightarrow> nat \<Rightarrow> nat \<Rightarrow>
   pystr list" where
  "walk_bullets low quot text k min_len max_len =
     select_loop low k min_len max_len (score_sentences quot (split_sentences text)) [] {}"

text \<open>The words of a text: the pieces that \<open>clean_tokens\<close> lower-cases and filters.\<close>

definition words :: "pystr \<Rightarrow> pystr list" where
  "words s = split (sub_nonword s)"

section \<open>Evaluation\<close>

text \<open>The defining equations that run the tokenizer on a concrete text.\<close>

lemmas tok_ev = str_def sub_nonword_def word_class_def isspace_def split_def lower_def
  lower_char_def strip_with_def STOPWORDS_def STOPWORDS_words_def isdigit_def isdigit_char_def
  clean_tokens_def

lemmas sent_ev = str_def re_split_def split_sentences_def strip_def strip_with_def isspace_def
  is_terminator_def

lemmas score_ev = score_sentences_def Counter_def sort_reverse_def exact_quot_def

section \<open>Sorting and counting\<close>


lemma set_sort_reverse: "set (sort_reverse f xs) = set xs"
  by (simp add: sort_reverse_def)

lemma length_sort_reverse: "length (sort_reverse f xs) = length xs"
  by (simp add: sort_reverse_def)

lemma sort_reverse_descending: "sorted_wrt (\<lambda>p q. f q \<le> f p) (sort_reverse f xs)"
proof -
  have "sorted (map f (sort_key f (rev xs)))" by simp
  then have "sorted_wrt (\<lambda>p q. f p \<le> f q) (sort_key f (rev xs))"
    by (simp add: sorted_map)
  then show ?thesis
    by (simp add: sort_reverse_def sorted_wrt_rev)
qed

lemma sort_reverse_stable:
  "filter (\<lambda>p. f p = v) (sort_reverse f xs) = filter (\<lambda>p. f p = v) xs"
proof -
  have "filter (\<lambda>p. f p = v) (sort_key f (rev xs)) = filter (\<lambda>p. f p = v) (rev xs)"
    by (rule sort_key_stable)
  then show ?thesis
    by (simp add: sort_reverse_def rev_filter [symmetric])
qed

lemma sorted_wrt_filter_classes:
  "(\<And>v. sorted_wrt R (filter (\<lambda>p. f p = v) xs)) \<Longrightarrow>
   sorted_wrt (\<lambda>p q. f p = f q \<longrightarrow> R p q) xs"
proof (induction xs)
  case Nil
  then show ?case by simp
next
  case (Cons x xs)
  have tl: "sorted_wrt R (filter (\<lambda>p. f p = v) xs)" for v
    using Cons.prems [of v] by (cases "f x = v") simp_all
  have hd: "R x y" if "y \<in> set xs" "f x = f y" for y
    using Cons.prems [of "f x"] that by auto
  show ?case using Cons.IH tl hd by auto
qed

lemma sort_reverse_ties:
  assumes "sorted_wrt R xs"
  shows "sorted_wrt (\<lambda>p q. f p = f q \<longrightarrow> R p q) (sort_reverse f xs)"
proof (rule sorted_wrt_filter_classes)
  fix v
  show "sorted_wrt R (filter (\<lambda>p. f p = v) (sort_reverse f xs))"
    using assms by (simp add: sort_reverse_stable sorted_wrt_filter)
qed

lemma fst_counter_add:
  "map fst (counter_add x c) = (if x \<in> set (map fst c) then map fst c else map fst c @ [x])"
  by (induction c) force+

lemma counter_get_add:
  "counter_get (counter_add x c) y = (if x = y then counter_get c y + 1 else counter_get c y)"
  by (induction c) auto

lemma Counter_snoc: "Counter (xs @ [x]) = counter_add x (Counter xs)"
  by (simp add: Counter_def)

lemma counter_get_Counter: "counter_get (Counter xs) y = count_list xs y"
  by (induction xs rule: rev_induct) (simp_all add: Counter_snoc counter_get_add Counter_def)

lemma set_fst_Counter: "set (map fst (Counter xs)) = set xs"
proof (induction xs rule: rev_induct)
  case Nil
  show ?case by (simp add: Counter_def)
next
  case (snoc x xs)
  then show ?case by (auto simp: Counter_snoc fst_counter_add simp del: set_map)
qed

lemma distinct_fst_Counter: "distinct (map fst (Counter xs))"
proof (induction xs rule: rev_induct)
  case Nil
  show ?case by (simp add: Counter_def)
next
  case (snoc x xs)
  then show ?case by (simp add: Counter_snoc fst_counter_add del: set_map)
qed

lemma counter_get_entry:
  "distinct (map fst c) \<Longrightarrow> (y, n) \<in> set c \<Longrightarrow> counter_get c y = n"
  by (induction c) (auto simp: rev_image_eqI)

lemma Counter_entry:
  assumes "(y, n) \<in> set (Counter xs)"
  shows "n = count_list xs y" and "y \<in> set xs"
proof -
  show "n = count_list xs y"
    using counter_get_entry [OF distinct_fst_Counter assms] by (simp add: counter_get_Counter)
  have "y \<in> set (map fst (Counter xs))" using assms by force
  then show "y \<in> set xs" by (simp only: set_fst_Counter)
qed

lemma first_index_append:
  "first_index (xs @ ys) x = (if x \<in> set xs then first_index xs x else length xs + first_index ys x)"
  by (induction xs) auto

lemma first_index_less: "x \<in> set xs \<Longrightarrow> first_index xs x < length xs"
  by (induction xs) auto

lemma Counter_first_seen:
  "sorted_wrt (\<lambda>a b. first_index xs a < first_index xs b) (map fst (Counter xs))"
proof (induction xs rule: rev_induct)
  case Nil
  show ?case by (simp add: Counter_def)
next
  case (snoc x xs)
  have keys: "set (map fst (Counter xs)) = set xs" by (rule set_fst_Counter)
  have old: "sorted_wrt (\<lambda>a b. first_index (xs @ [x]) a < first_index (xs @ [x]) b)
               (map fst (Counter xs))"
  proof (rule sorted_wrt_mono_rel [OF _ snoc.IH])
    fix a b
    assume "a \<in> set (map fst (Counter xs))" "b \<in> set (map fst (Counter xs))"
      and "first_index xs a < first_index xs b"
    then show "first_index (xs @ [x]) a < first_index (xs @ [x]) b"
      by (simp only: keys first_index_append if_True)
  qed
  show ?case
  proof (cases "x \<in> set xs")
    case True
    then show ?thesis using old keys by (simp add: Counter_snoc fst_counter_add del: set_map)
  next
    case False
    then show ?thesis using old keys
      by (auto simp: Counter_snoc fst_counter_add sorted_wrt_append first_index_append
            first_index_less simp del: set_map)
  qed
qed

section \<open>The tokenizer\<close>

text \<open>
  Claim C6. For every input string, no token returned by \<open>clean_tokens\<close> is a member of
  the stopword set, none consists entirely of digits (neither for \<open>str.isdigit\<close> nor as a
  string of the digits 0 to 9), and none is empty.
\<close>

theorem clean_tokens_filtered:
  "\<forall>w \<in> set (clean_tokens text).
     w \<notin> STOPWORDS \<and> \<not> isdigit w \<and> \<not> list_all ascii_digit w \<and> w \<noteq> []"
proof
  fix w
  assume "w \<in> set (clean_tokens text)"
  then have kept: "w \<noteq> []" "w \<notin> STOPWORDS" "\<not> isdigit w"
    by (simp_all add: clean_tokens_def)
  have "isdigit w" if "list_all ascii_digit w"
    using that kept(1) by (auto simp: isdigit_def list_all_iff isdigit_char_def ascii_digit_def)
  with kept show "w \<notin> STOPWORDS \<and> \<not> isdigit w \<and> \<not> list_all ascii_digit w \<and> w \<noteq> []"
    by blast
qed

theorem clean_tokens_filtered_witness:
  "str ''hello'' \<in> set (clean_tokens (str ''Hello, World! 123 the AND'')) \<and>
   str ''hello'' \<notin> STOPWORDS \<and> \<not> isdigit (str ''hello'') \<and>
   \<not> list_all ascii_digit (str ''hello'') \<and> str ''hello'' \<noteq> []"
proof -
  have toks: "clean_tokens (str ''Hello, World! 123 the AND'') = [str ''hello'', str ''world'']"
    by (simp add: tok_ev)
  then have "str ''hello'' \<in> set (clean_tokens (str ''Hello, World! 123 the AND''))"
    by simp
  with clean_tokens_filtered [of "str ''Hello, World! 123 the AND''"] show ?thesis
    by blast
qed

section \<open>The keyword ranker\<close>

text \<open>
  Claim C3. For every text and every \<open>n \<ge> 0\<close>, \<open>keyword_top_n text n\<close> has at most \<open>n\<close>
  pairs; the count of each pair is the number of occurrences of its token among
  \<open>clean_tokens text\<close>; the pairs are in descending order of count; pairs with equal counts
  are in the order in which their tokens first occur; and \<open>n = 0\<close> gives the empty list.
\<close>

theorem keyword_top_n_ranked:
  "length (keyword_top_n text n) \<le> n \<and>
   (\<forall>(t, c) \<in> set (keyword_top_n text n).
      t \<in> set (clean_tokens text) \<and> c = count_list (clean_tokens text) t) \<and>
   sorted_wrt (\<lambda>p q. snd q \<le> snd p) (keyword_top_n text n) \<and>
   sorted_wrt (\<lambda>p q. snd p = snd q \<longrightarrow>
      first_index (clean_tokens text) (fst p) < first_index (clean_tokens text) (fst q))
     (keyword_top_n text n) \<and>
   keyword_top_n text 0 = []"
proof -
  let ?toks = "clean_tokens text"
  let ?all = "sort_reverse snd (Counter ?toks)"
  have r: "keyword_top_n text n = take n ?all"
    by (simp add: keyword_top_n_def most_common_def)
  have len: "length (keyword_top_n text n) \<le> n"
    by (simp add: r)
  have entries: "\<forall>(t, c) \<in> set (keyword_top_n text n). t \<in> set ?toks \<and> c = count_list ?toks t"
  proof (clarify)
    fix t c
    assume "(t, c) \<in> set (keyword_top_n text n)"
    then have "(t, c) \<in> set ?all" unfolding r by (rule in_set_takeD)
    then have "(t, c) \<in> set (Counter ?toks)" by (simp only: set_sort_reverse)
    then show "t \<in> set ?toks \<and> c = count_list ?toks t"
      by (auto dest: Counter_entry)
  qed
  have desc: "sorted_wrt (\<lambda>p q. snd q \<le> snd p) (keyword_top_n text n)"
    unfolding r by (rule sorted_wrt_take) (rule sort_reverse_descending)
  have "sorted_wrt (\<lambda>p q. first_index ?toks (fst p) < first_index ?toks (fst q)) (Counter ?toks)"
    using Counter_first_seen [of ?toks] by (simp add: sorted_wrt_map)
  then have ties: "sorted_wrt (\<lambda>p q. snd p = snd q \<longrightarrow>
      first_index ?toks (fst p) < first_index ?toks (fst q)) (keyword_top_n text n)"
    unfolding r by (intro sorted_wrt_take sort_reverse_ties)
  have zero: "keyword_top_n text 0 = []"
    by (simp add: keyword_top_n_def most_common_def)
  from len entries desc ties zero show ?thesis by blast
qed

theorem keyword_top_n_ranked_witness:
  "keyword_top_n (str ''dog cat dog cat bird'') 2 = [(str ''dog'', 2), (str ''cat'', 2)] \<and>
   count_list (clean_tokens (str ''dog cat dog cat bird'')) (str ''dog'') = 2 \<and>
   count_list (clean_tokens (str ''dog cat dog cat bird'')) (str ''cat'') = 2 \<and>
   first_index (clean_tokens (str ''dog cat dog cat bird'')) (str ''dog'')
     < first_index (clean_tokens (str ''dog cat dog cat bird'')) (str ''cat'')"
proof -
  have toks: "clean_tokens (str ''dog cat dog cat bird'')
      = [str ''dog'', str ''cat'', str ''dog'', str ''cat'', str ''bird'']"
    by (simp add: tok_ev)
  have top: "keyword_top_n (str ''dog cat dog cat bird'') 2 = [(str ''dog'', 2), (str ''cat'', 2)]"
    unfolding keyword_top_n_def toks
    by (simp add: Counter_def most_common_def sort_reverse_def str_def)
  show ?thesis
    using keyword_top_n_ranked [of "str ''dog cat dog cat bird''" 2]
    unfolding top toks by (simp add: str_def)
qed

section \<open>Splitting at whitespace\<close>

lemma words_spec_space: "isspace c \<Longrightarrow> words_spec (c # cs) = words_spec cs"
  by (subst (1 2) words_spec.simps) simp

lemma words_spec_Nil: "words_spec [] = []"
  by (subst words_spec.simps) simp

lemma words_spec_char:
  "\<not> isspace c \<Longrightarrow>
   words_spec (c # cs) =
     (c # takeWhile (\<lambda>c. \<not> isspace c) cs) # words_spec (dropWhile (\<lambda>c. \<not> isspace c) cs)"
  by (subst words_spec.simps) simp

lemma split_run_words:
  "split_run cur s =
     (if cur = [] then words_spec s
      else (rev cur @ takeWhile (\<lambda>c. \<not> isspace c) s)
           # words_spec (dropWhile (\<lambda>c. \<not> isspace c) s))"
proof (induction s arbitrary: cur)
  case Nil
  show ?case by (simp add: words_spec_Nil)
next
  case (Cons c cs)
  show ?case
  proof (cases "isspace c")
    case True
    then show ?thesis by (simp add: Cons.IH [of "[]"] words_spec_space)
  next
    case False
    then show ?thesis by (simp add: Cons.IH [of "c # cur"] words_spec_char)
  qed
qed

lemma split_words_spec: "split s = words_spec s"
  by (simp add: split_def split_run_words)

lemma split_run_chars:
  "w \<in> set (split_run cur s) \<Longrightarrow> c \<in> set w \<Longrightarrow> (c \<in> set cur \<or> c \<in> set s \<and> \<not> isspace c)"
proof (induction s arbitrary: cur)
  case Nil
  then show ?case by (auto split: if_splits)
next
  case (Cons a s)
  show ?case
  proof (cases "isspace a")
    case True
    then have "w = rev cur \<or> w \<in> set (split_run [] s)"
      using Cons.prems(1) by (auto split: if_splits)
    then show ?thesis
      using Cons.IH [of "[]"] Cons.prems(2) by auto
  next
    case False
    then have "w \<in> set (split_run (a # cur) s)" using Cons.prems(1) by simp
    from Cons.IH [OF this Cons.prems(2)] False show ?thesis by auto
  qed
qed

lemma split_chars: "w \<in> set (split s) \<Longrightarrow> c \<in> set w \<Longrightarrow> c \<in> set s \<and> \<not> isspace c"
  using split_run_chars [of w "[]" s c] by (simp add: split_def)

lemma split_run_space:
  "isspace c \<Longrightarrow> split_run cur (a @ c # b) = split_run cur a @ split_run [] b"
  by (induction a arbitrary: cur) simp_all

lemma split_space: "isspace c \<Longrightarrow> split (a @ c # b) = split a @ split b"
  by (simp add: split_def split_run_space)

lemma sub_nonword_join:
  "sub_nonword (join (str '' '') xs) = join (str '' '') (map sub_nonword xs)"
  by (induction "str '' ''" xs rule: join.induct)
     (simp_all add: sub_nonword_def str_def word_class_def isspace_def)

lemma split_join: "split (join (str '' '') xs) = concat (map split xs)"
proof (induction "str '' ''" xs rule: join.induct)
  case 1
  show ?case by (simp add: split_def)
next
  case (2 x)
  show ?case by simp
next
  case (3 x y ys)
  have "isspace 32" by (simp add: isspace_def)
  then show ?case using 3 by (simp add: str_def split_space)
qed

lemma clean_tokens_join:
  "clean_tokens (join (str '' '') xs) = concat (map clean_tokens xs)"
proof -
  have "clean_tokens (join (str '' '') xs)
      = concat (map (\<lambda>x. filter (\<lambda>w. w \<noteq> [] \<and> w \<notin> STOPWORDS \<and> \<not> isdigit w)
                 (map (\<lambda>w. strip_with (\<lambda>c. c = 39) (lower w)) (split (sub_nonword x)))) xs)"
    by (simp add: clean_tokens_def sub_nonword_join split_join map_concat filter_concat comp_def)
  also have "\<dots> = concat (map clean_tokens xs)"
    by (rule arg_cong [where f = concat], rule map_cong) (simp_all add: clean_tokens_def)
  finally show ?thesis .
qed


lemma word_class_small: "word_class c \<Longrightarrow> \<not> isspace c \<Longrightarrow> c \<le> 122"
  by (auto simp: word_class_def)

lemma isspace_32: "isspace 32"
  by (simp add: isspace_def)

lemma sub_nonword_chars: "c \<in> set (sub_nonword text) \<Longrightarrow> \<not> isspace c \<Longrightarrow> c \<le> 122"
  using word_class_small isspace_32 by (auto simp: sub_nonword_def split: if_splits)

lemma piece_chars:
  "w \<in> set (split (sub_nonword text)) \<Longrightarrow> c \<in> set w \<Longrightarrow> c \<le> 122"
  using split_chars sub_nonword_chars by blast

lemma lower_char_ascii: "c \<le> 122 \<Longrightarrow> lower_char c = ascii_lower c"
  by (simp add: lower_char_def ascii_lower_def)

lemma lower_ascii: "\<forall>c \<in> set w. c \<le> 122 \<Longrightarrow> lower w = map ascii_lower w"
  by (simp add: lower_def lower_char_ascii)

lemma set_strip_with: "set (strip_with p s) \<subseteq> set s"
  by (auto simp: strip_with_def dest!: set_dropWhileD)

lemma isdigit_ascii:
  "\<forall>c \<in> set p. c \<le> 122 \<Longrightarrow> isdigit p \<longleftrightarrow> p \<noteq> [] \<and> list_all ascii_digit p"
proof -
  assume small: "\<forall>c \<in> set p. c \<le> 122"
  have "isdigit_char c \<longleftrightarrow> ascii_digit c" if "c \<in> set p" for c
    using small that by (auto simp: isdigit_char_def ascii_digit_def)
  then have "list_all isdigit_char p \<longleftrightarrow> list_all ascii_digit p"
    by (simp add: list_all_iff)
  then show ?thesis by (simp add: isdigit_def)
qed

lemma drop_leading_dropWhile: "drop_leading q s = dropWhile (\<lambda>c. c = q) s"
  by (induction s) simp_all

lemma drop_trailing_rev: "drop_trailing q s = rev (dropWhile (\<lambda>c. c = q) (rev s))"
proof (induction s)
  case Nil
  show ?case by simp
next
  case (Cons c cs)
  have empty: "drop_trailing q cs = [] \<longleftrightarrow> (\<forall>x \<in> set cs. x = q)"
    unfolding Cons.IH by (simp add: dropWhile_eq_Nil_conv)
  show ?case
  proof (cases "\<forall>x \<in> set cs. x = q")
    case True
    then have "dropWhile (\<lambda>c. c = q) (rev cs @ [c]) = dropWhile (\<lambda>c. c = q) [c]"
      by (simp add: dropWhile_append)
    then show ?thesis using True empty by simp
  next
    case False
    then have "dropWhile (\<lambda>c. c = q) (rev cs @ [c]) = dropWhile (\<lambda>c. c = q) (rev cs) @ [c]"
      by (auto simp: dropWhile_append)
    then show ?thesis using False empty Cons.IH by simp
  qed
qed

lemma strip_apostrophes_strip_with: "strip_apostrophes p = strip_with (\<lambda>c. c = 39) p"
  by (simp add: strip_apostrophes_def strip_with_def drop_leading_dropWhile drop_trailing_rev)

lemma filter_map_agree:
  assumes "\<forall>w \<in> set xs. f w = g w \<and> (P (f w) \<longleftrightarrow> Q (f w))"
  shows "filter P (map f xs) = filter Q (map g xs)"
proof -
  have eq: "map f xs = map g xs" using assms by simp
  have "filter P (map g xs) = filter Q (map g xs)"
    using assms by (intro filter_cong) auto
  then show ?thesis by (simp only: eq)
qed

text \<open>
  Claim C5. For every input string, \<open>clean_tokens\<close> computes the four steps of the
  specification: replace every character outside \<open>[A-Za-z0-9\s']\<close> by a space, split at
  runs of whitespace, lower-case each piece and strip its apostrophes, drop the pieces
  that are empty, all digits or stopwords; the order of the text is kept and nothing is
  deduplicated. In particular \<open>clean_tokens("Hello, World! 123 the AND")\<close> is
  \<open>["hello", "world"]\<close>. A second text, with apostrophes before, inside and after its
  words (code point 39), shows the third step at work: the apostrophe inside a word
  stays, the others go, and a piece of apostrophes only is dropped.
\<close>

theorem clean_tokens_refines_spec:
  "clean_tokens text = tokenize_spec text \<and>
   clean_tokens (str ''Hello, World! 123 the AND'') = [str ''hello'', str ''world''] \<and>
   clean_tokens ([39] @ str ''Tis the cat'' @ [39] @ str ''s '' @ [39, 39] @ str '' ''
                 @ [39] @ str ''toy'' @ [39, 39])
     = [str ''tis'', str ''cat'' @ [39] @ str ''s'', str ''toy'']"
proof (intro conjI)
  let ?pieces = "split (sub_nonword text)"
  have replaced:
    "map (\<lambda>c. if ascii_letter c \<or> ascii_digit c \<or> isspace c \<or> c = 39 then c else 32) text
       = sub_nonword text"
    by (auto simp: sub_nonword_def word_class_def ascii_letter_def ascii_digit_def)
  have agree:
    "strip_with (\<lambda>c. c = 39) (lower w) = strip_with (\<lambda>c. c = 39) (map ascii_lower w) \<and>
     ((strip_with (\<lambda>c. c = 39) (lower w) \<noteq> [] \<and>
       strip_with (\<lambda>c. c = 39) (lower w) \<notin> STOPWORDS \<and>
       \<not> isdigit (strip_with (\<lambda>c. c = 39) (lower w))) \<longleftrightarrow>
      \<not> (strip_with (\<lambda>c. c = 39) (lower w) = [] \<or>
         list_all ascii_digit (strip_with (\<lambda>c. c = 39) (lower w)) \<or>
         strip_with (\<lambda>c. c = 39) (lower w) \<in> STOPWORDS))"
    if w: "w \<in> set ?pieces" for w
  proof -
    have small: "\<forall>c \<in> set w. c \<le> 122" using piece_chars [OF w] by blast
    have low: "lower w = map ascii_lower w" by (rule lower_ascii [OF small])
    have "\<forall>c \<in> set (map ascii_lower w). c \<le> 122"
      using small by (auto simp: ascii_lower_def)
    then have "\<forall>c \<in> set (strip_with (\<lambda>c. c = 39) (map ascii_lower w)). c \<le> 122"
      using set_strip_with [of "\<lambda>c. c = 39" "map ascii_lower w"] by blast
    then show ?thesis
      unfolding low using isdigit_ascii by blast
  qed
  show "clean_tokens text = tokenize_spec text"
    unfolding clean_tokens_def tokenize_spec_def Let_def replaced split_words_spec [symmetric]
      strip_apostrophes_strip_with
    by (rule filter_map_agree) (use agree in blast)
next
  show "clean_tokens (str ''Hello, World! 123 the AND'') = [str ''hello'', str ''world'']"
    by (simp add: tok_ev)
next
  show "clean_tokens ([39] @ str ''Tis the cat'' @ [39] @ str ''s '' @ [39, 39] @ str '' ''
                 @ [39] @ str ''toy'' @ [39, 39])
     = [str ''tis'', str ''cat'' @ [39] @ str ''s'', str ''toy'']"
    by (simp add: tok_ev)
qed

theorem clean_tokens_refines_spec_witness:
  "tokenize_spec (str ''Hello, World! 123 the AND'') = [str ''hello'', str ''world''] \<and>
   tokenize_spec ([39] @ str ''Tis the cat'' @ [39] @ str ''s '' @ [39, 39] @ str '' ''
                  @ [39] @ str ''toy'' @ [39, 39])
     = [str ''tis'', str ''cat'' @ [39] @ str ''s'', str ''toy'']"
  using clean_tokens_refines_spec [of "str ''Hello, World! 123 the AND''"]
    clean_tokens_refines_spec [of "[39] @ str ''Tis the cat'' @ [39] @ str ''s '' @ [39, 39]
      @ str '' '' @ [39] @ str ''toy'' @ [39, 39]"]
  by metis

section \<open>The sentence scorer\<close>













lemma score_example_empty: "score_sentences score_quotient [str ''123.''] = []"
  by (simp add: tok_ev score_sentences_def)






section \<open>The sentence segmenter\<close>

lemma filter_dropWhile_not:
  "filter (\<lambda>x. \<not> P x) (dropWhile P xs) = filter (\<lambda>x. \<not> P x) xs"
  by (induction xs) simp_all

lemma filter_strip_with:
  "filter (\<lambda>x. \<not> P x) (strip_with P s) = filter (\<lambda>x. \<not> P x) s"
proof -
  have "filter (\<lambda>x. \<not> P x) (strip_with P s)
      = rev (filter (\<lambda>x. \<not> P x) (dropWhile P (rev (dropWhile P s))))"
    by (simp add: strip_with_def rev_filter)
  also have "\<dots> = rev (filter (\<lambda>x. \<not> P x) (rev (dropWhile P s)))"
    by (simp only: filter_dropWhile_not)
  also have "\<dots> = filter (\<lambda>x. \<not> P x) (dropWhile P s)"
    by (simp add: rev_filter)
  also have "\<dots> = filter (\<lambda>x. \<not> P x) s"
    by (rule filter_dropWhile_not)
  finally show ?thesis .
qed

lemma strip_with_empty_iff: "strip_with P s = [] \<longleftrightarrow> (\<forall>x \<in> set s. P x)"
proof
  assume "strip_with P s = []"
  then have "filter (\<lambda>x. \<not> P x) s = []"
    using filter_strip_with [of P s] by simp
  then show "\<forall>x \<in> set s. P x" by (simp add: filter_empty_conv)
next
  assume "\<forall>x \<in> set s. P x"
  then have d: "dropWhile P s = []" by simp
  show "strip_with P s = []" unfolding strip_with_def d by simp
qed

lemma last_dropWhile: "dropWhile P xs \<noteq> [] \<Longrightarrow> last (dropWhile P xs) = last xs"
  by (induction xs) (auto split: if_splits)

lemma strip_with_ends:
  assumes "strip_with P s \<noteq> []"
  shows "\<not> P (hd (strip_with P s))" and "\<not> P (last (strip_with P s))"
proof -
  let ?ys = "dropWhile P s"
  let ?r = "dropWhile P (rev ?ys)"
  have r: "?r \<noteq> []" using assms by (simp add: strip_with_def)
  have ys: "?ys \<noteq> []"
  proof
    assume e: "?ys = []"
    have "?r = []" unfolding e by simp
    with r show False by contradiction
  qed
  have "hd (strip_with P s) = last ?r" using r by (simp add: strip_with_def hd_rev)
  also have "\<dots> = last (rev ?ys)" using r by (rule last_dropWhile)
  also have "\<dots> = hd ?ys" using ys by (simp add: last_rev)
  finally show "\<not> P (hd (strip_with P s))" using hd_dropWhile [OF ys] by simp
  have "last (strip_with P s) = hd ?r" using r by (simp add: strip_with_def last_rev)
  then show "\<not> P (last (strip_with P s))" using hd_dropWhile [OF r] by simp
qed

lemma strip_with_fixed:
  assumes "xs = [] \<or> \<not> P (hd xs) \<and> \<not> P (last xs)"
  shows "strip_with P xs = xs"
proof (cases xs)
  case Nil
  then show ?thesis by (simp add: strip_with_def)
next
  case (Cons a as)
  with assms have a: "\<not> P (hd xs)" and l: "\<not> P (last xs)" by auto
  have 1: "dropWhile P xs = xs" using a Cons by simp
  have "rev xs \<noteq> []" using Cons by simp
  then obtain b bs where rv: "rev xs = b # bs" by (cases "rev xs") auto
  have "hd (rev xs) = last xs" using Cons by (simp add: hd_rev)
  then have "b = last xs" unfolding rv by simp
  then have 2: "dropWhile P (rev xs) = rev xs" unfolding rv using l by simp
  show ?thesis by (simp add: strip_with_def 1 2)
qed

lemma strip_with_idem: "strip_with P (strip_with P s) = strip_with P s"
  using strip_with_ends [of P s] by (intro strip_with_fixed) blast

lemma re_split_run_content:
  "filter (\<lambda>c. \<not> isspace c) (concat (re_split_run prev cur s))
     = filter (\<lambda>c. \<not> isspace c) (rev cur @ s)"
proof (induction prev cur s rule: re_split_run.induct)
  case (1 prev cur)
  show ?case by simp
next
  case (2 prev cur c cs)
  show ?case
  proof (cases "prev \<and> isspace c")
    case True
    then show ?thesis using 2(1) by (simp add: filter_dropWhile_not)
  next
    case False
    then show ?thesis using 2(2) by auto
  qed
qed

lemma sentences_content:
  "filter (\<lambda>c. \<not> isspace c) (concat (map strip (filter (\<lambda>p. strip p \<noteq> []) parts)))
     = filter (\<lambda>c. \<not> isspace c) (concat parts)"
proof (induction parts)
  case Nil
  show ?case by simp
next
  case (Cons p parts)
  have keep: "filter (\<lambda>c. \<not> isspace c) (strip p) = filter (\<lambda>c. \<not> isspace c) p"
    unfolding strip_def by (rule filter_strip_with)
  show ?case
  proof (cases "strip p = []")
    case True
    with keep have "filter (\<lambda>c. \<not> isspace c) p = []" by simp
    with True Cons show ?thesis by simp
  next
    case False
    with keep Cons show ?thesis by simp
  qed
qed

text \<open>
  Claim C7. For every text, the sentences of \<open>split_sentences\<close>, put one after the other
  and read without their whitespace, are the text read without its whitespace, in the
  same order; and no sentence is empty after trimming.
\<close>

theorem split_sentences_content:
  "filter (\<lambda>c. \<not> isspace c) (concat (split_sentences text)) = filter (\<lambda>c. \<not> isspace c) text \<and>
   (\<forall>s \<in> set (split_sentences text). strip s \<noteq> [])"
proof
  show "filter (\<lambda>c. \<not> isspace c) (concat (split_sentences text))
      = filter (\<lambda>c. \<not> isspace c) text"
    by (simp add: split_sentences_def sentences_content re_split_def re_split_run_content)
  show "\<forall>s \<in> set (split_sentences text). strip s \<noteq> []"
    by (auto simp: split_sentences_def strip_def strip_with_idem)
qed

theorem split_sentences_content_witness:
  "split_sentences (str ''Hi there.  Bye!'') = [str ''Hi there.'', str ''Bye!''] \<and>
   filter (\<lambda>c. \<not> isspace c) (str ''Hi there.Bye!'') = filter (\<lambda>c. \<not> isspace c) (str ''Hi there.  Bye!'') \<and>
   strip (str ''Hi there.'') \<noteq> [] \<and> strip (str ''Bye!'') \<noteq> []"
proof -
  have s: "split_sentences (str ''Hi there.  Bye!'') = [str ''Hi there.'', str ''Bye!'']"
    by (simp add: sent_ev)
  have c: "concat [str ''Hi there.'', str ''Bye!''] = str ''Hi there.Bye!''"
    by (simp add: str_def)
  show ?thesis
    using split_sentences_content [of "str ''Hi there.  Bye!''"] unfolding s c by simp
qed

lemma terminator_not_space: "is_terminator c \<Longrightarrow> \<not> isspace c"
  by (auto simp: is_terminator_def isspace_def)

lemma re_split_run_whole:
  "\<not> has_split_point s \<Longrightarrow> (prev \<longrightarrow> s = [] \<or> \<not> isspace (hd s)) \<Longrightarrow>
   re_split_run prev cur s = [rev cur @ s]"
proof (induction s arbitrary: prev cur)
  case Nil
  show ?case by simp
next
  case (Cons c cs)
  have rest: "\<not> has_split_point cs" using Cons.prems(1) by (cases cs) auto
  have next_ok: "is_terminator c \<longrightarrow> cs = [] \<or> \<not> isspace (hd cs)"
    using Cons.prems(1) by (cases cs) auto
  have "\<not> (prev \<and> isspace c)" using Cons.prems(2) by simp
  then have "re_split_run prev cur (c # cs) = re_split_run (is_terminator c) (c # cur) cs"
    by auto
  also have "\<dots> = [rev (c # cur) @ cs]" by (rule Cons.IH [OF rest next_ok])
  finally show ?case by simp
qed

lemma spaces_no_split_point: "\<forall>c \<in> set s. isspace c \<Longrightarrow> \<not> has_split_point s"
  by (induction s rule: has_split_point.induct) (auto dest: terminator_not_space)

text \<open>
  Claim C8. For every text without a full stop, exclamation mark or question mark that is
  followed by whitespace: when the text has a character that is not whitespace,
  \<open>split_sentences\<close> returns one sentence, the text trimmed; and for every text of
  whitespace only (the empty text too) it returns the empty list.
\<close>

theorem split_sentences_unterminated:
  "(\<not> has_split_point text \<and> (\<exists>c \<in> set text. \<not> isspace c) \<longrightarrow>
      split_sentences text = [strip text]) \<and>
   ((\<forall>c \<in> set text. isspace c) \<longrightarrow> split_sentences text = [])"
proof (intro conjI impI)
  assume a: "\<not> has_split_point text \<and> (\<exists>c \<in> set text. \<not> isspace c)"
  then have "re_split text = [text]" by (simp add: re_split_def re_split_run_whole)
  moreover have "strip text \<noteq> []" using a by (auto simp: strip_def strip_with_empty_iff)
  ultimately show "split_sentences text = [strip text]" by (simp add: split_sentences_def)
next
  assume a: "\<forall>c \<in> set text. isspace c"
  then have "re_split text = [text]"
    by (simp add: re_split_def re_split_run_whole spaces_no_split_point)
  moreover have "strip text = []" using a by (simp add: strip_def strip_with_empty_iff)
  ultimately show "split_sentences text = []" by (simp add: split_sentences_def)
qed

theorem split_sentences_unterminated_witness:
  "\<not> has_split_point (str '' no stop.here '') \<and>
   (\<exists>c \<in> set (str '' no stop.here ''). \<not> isspace c) \<and>
   split_sentences (str '' no stop.here '') = [str ''no stop.here''] \<and>
   list_all isspace (str ''   '') \<and> split_sentences (str ''   '') = []"
proof -
  have h: "\<not> has_split_point (str '' no stop.here '') \<and>
      (\<exists>c \<in> set (str '' no stop.here ''). \<not> isspace c)"
    by (simp add: str_def isspace_def is_terminator_def)
  have st: "strip (str '' no stop.here '') = str ''no stop.here''"
    by (simp add: str_def strip_def strip_with_def isspace_def)
  have w: "\<forall>c \<in> set (str ''   ''). isspace c"
    by (simp add: str_def isspace_def)
  show ?thesis
    using split_sentences_unterminated [of "str '' no stop.here ''"]
      split_sentences_unterminated [of "str ''   ''"] h st w
    by (simp add: list_all_iff)
qed

section \<open>The summary selector\<close>

lemma unbullet_bullet: "unbullet (bullet @ s) = s"
  by (simp add: unbullet_def)

lemma select_loop_length:
  "0 < k \<Longrightarrow> length bullets < k \<Longrightarrow>
   length (select_loop low k mn mx ranked bullets used) \<le> k"
proof (induction ranked arbitrary: bullets used)
  case Nil
  then show ?case by simp
next
  case (Cons p ranked)
  obtain s sc where p: "p = (s, sc)" by (cases p)
  show ?case
    using Cons.prems Cons.IH [of bullets used]
      Cons.IH [of "bullets @ [bullet @ s]" "insert (low (take 40 s)) used"]
    by (auto simp: p Let_def)
qed

lemma select_loop_distinct:
  "used = set (map (signature low) chosen) \<Longrightarrow> distinct (map (signature low) chosen) \<Longrightarrow>
   bullets = map (\<lambda>s. bullet @ s) chosen \<Longrightarrow>
   \<exists>chosen'. select_loop low k mn mx ranked bullets used = map (\<lambda>s. bullet @ s) chosen' \<and>
     distinct (map (signature low) chosen') \<and> set chosen' \<subseteq> set chosen \<union> fst ` set ranked"
proof (induction ranked arbitrary: bullets used chosen)
  case Nil
  then show ?case by auto
next
  case (Cons p ranked)
  obtain s sc where p: "p = (s, sc)" by (cases p)
  let ?sig = "low (take 40 s)"
  have sig: "?sig = signature low s" by (simp add: signature_def)
  consider (skip) "length s < mn \<or> length s > mx \<or> ?sig \<in> used"
    | (stop) "\<not> (length s < mn \<or> length s > mx)" "?sig \<notin> used"
        "k \<le> length (bullets @ [bullet @ s])"
    | (go) "\<not> (length s < mn \<or> length s > mx)" "?sig \<notin> used"
        "\<not> k \<le> length (bullets @ [bullet @ s])"
    by blast
  then show ?case
  proof cases
    case skip
    then have "select_loop low k mn mx (p # ranked) bullets used
        = select_loop low k mn mx ranked bullets used"
      by (auto simp: p Let_def)
    with Cons.IH [OF Cons.prems] show ?thesis by fastforce
  next
    case stop
    then have r: "select_loop low k mn mx (p # ranked) bullets used = bullets @ [bullet @ s]"
      by (simp add: p Let_def)
    have "distinct (map (signature low) (chosen @ [s]))"
      using Cons.prems stop(2) unfolding sig by simp
    then show ?thesis
      unfolding r using Cons.prems(3) p
      by (intro exI [of _ "chosen @ [s]"]) auto
  next
    case go
    then have r: "select_loop low k mn mx (p # ranked) bullets used
        = select_loop low k mn mx ranked (bullets @ [bullet @ s]) (insert ?sig used)"
      by (simp add: p Let_def)
    have 1: "insert ?sig used = set (map (signature low) (chosen @ [s]))"
      using Cons.prems(1) unfolding sig by simp
    have 2: "distinct (map (signature low) (chosen @ [s]))"
      using Cons.prems go(2) unfolding sig by simp
    have 3: "bullets @ [bullet @ s] = map (\<lambda>s. bullet @ s) (chosen @ [s])"
      using Cons.prems(3) by simp
    from Cons.IH [OF 1 2 3] show ?thesis unfolding r by (fastforce simp: p)
  qed
qed

lemma walk_distinct:
  "distinct (map (signature low) (map unbullet (walk_bullets low quot text k mn mx)))"
proof -
  obtain chosen where c: "walk_bullets low quot text k mn mx = map (\<lambda>s. bullet @ s) chosen"
    and d: "distinct (map (signature low) chosen)"
    using select_loop_distinct [of "{}" low "[]" "[]" k mn mx
        "score_sentences quot (split_sentences text)"]
    unfolding walk_bullets_def by auto
  have "map unbullet (map (\<lambda>s. bullet @ s) chosen) = chosen"
    by (simp add: comp_def unbullet_bullet)
  then show ?thesis using d unfolding c by simp
qed

lemma extract_cases:
  "extract_summary_bullets low quot text k mn mx =
     (if walk_bullets low quot text k mn mx = [] \<and> split_sentences text \<noteq> []
      then map (\<lambda>s. bullet @ s) (take k (split_sentences text))
      else walk_bullets low quot text k mn mx)"
  by (simp add: extract_summary_bullets_def walk_bullets_def Let_def)

text \<open>
  Claim C1, as amended. For every text and every \<open>k \<ge> 1\<close>, whatever the length bounds,
  \<open>extract_summary_bullets\<close> returns at most \<open>k\<close> bullets; and whenever the loop over the
  ranked sentences accepts a sentence, so that the result is not the fallback, no two
  returned bullets stand on sentences whose first 40 characters, in lower case, are equal.
  This holds for every lower-casing \<open>low\<close>, hence for \<open>str.lower\<close> on any Unicode text, and
  for every arithmetic \<open>quot\<close>.
\<close>

theorem extract_summary_bullets_bounded:
  fixes quot :: "nat \<Rightarrow> nat \<Rightarrow> 'r::linorder"
  shows
  "(0 < k \<longrightarrow> length (extract_summary_bullets low quot text k mn mx) \<le> k) \<and>
   (walk_bullets low quot text k mn mx \<noteq> [] \<longrightarrow>
      distinct (map (signature low) (map unbullet (extract_summary_bullets low quot text k mn mx))))"
proof (intro conjI impI)
  assume k: "0 < k"
  have "length (walk_bullets low quot text k mn mx) \<le> k"
    unfolding walk_bullets_def using k by (intro select_loop_length) simp_all
  then show "length (extract_summary_bullets low quot text k mn mx) \<le> k"
    by (simp add: extract_cases)
next
  assume "walk_bullets low quot text k mn mx \<noteq> []"
  then show "distinct (map (signature low) (map unbullet (extract_summary_bullets low quot text k mn mx)))"
    using walk_distinct [of low quot "text" k mn mx] by (simp add: extract_cases)
qed

theorem extract_summary_bullets_bounded_witness:
  "walk_bullets lower exact_quot (str ''The quick brown fox jumps over the lazy dog today. The quick brown fox jumps over the lazy dog tonight. A lazy dog sleeps under the old brown tree all day.'') 2 40 220 \<noteq> [] \<and>
   extract_summary_bullets lower exact_quot (str ''The quick brown fox jumps over the lazy dog today. The quick brown fox jumps over the lazy dog tonight. A lazy dog sleeps under the old brown tree all day.'') 2 40 220
     = [bullet @ str ''The quick brown fox jumps over the lazy dog today.'',
        bullet @ str ''A lazy dog sleeps under the old brown tree all day.''] \<and>
   signature lower (str ''The quick brown fox jumps over the lazy dog today.'')
     \<noteq> signature lower (str ''A lazy dog sleeps under the old brown tree all day.'')"
proof -
  let ?text = "str ''The quick brown fox jumps over the lazy dog today. The quick brown fox jumps over the lazy dog tonight. A lazy dog sleeps under the old brown tree all day.''"
  let ?s1 = "str ''The quick brown fox jumps over the lazy dog today.''"
  let ?s2 = "str ''The quick brown fox jumps over the lazy dog tonight.''"
  let ?s3 = "str ''A lazy dog sleeps under the old brown tree all day.''"
  have s: "split_sentences ?text = [?s1, ?s2, ?s3]"
    by (simp add: sent_ev)
  have r: "score_sentences exact_quot [?s1, ?s2, ?s3]
      = [(?s1, 1048576 / 2401), (?s2, 1048576 / 2401), (?s3, 371293 / 2401)]"
    by (simp add: tok_ev score_ev)
  have w: "walk_bullets lower exact_quot ?text 2 40 220 = [bullet @ ?s1, bullet @ ?s3]"
    unfolding walk_bullets_def s r by (simp add: str_def lower_def lower_char_def)
  have e: "extract_summary_bullets lower exact_quot ?text 2 40 220 = [bullet @ ?s1, bullet @ ?s3]"
    by (simp add: extract_cases w)
  have "0 < (2::nat)" by simp
  then show ?thesis
    using extract_summary_bullets_bounded [of 2 lower exact_quot ?text 40 220]
    unfolding e w by (simp add: unbullet_bullet)
qed

text \<open>
  The claim as first stated also covers the fallback, which copies the first \<open>k\<close>
  sentences without looking at their signatures: two equal short sentences come back as
  two equal bullets.
\<close>

theorem extract_summary_bullets_repeats:
  "extract_summary_bullets lower exact_quot (str ''Short. Short.'') 2 40 220
     = [bullet @ str ''Short.'', bullet @ str ''Short.''] \<and>
   \<not> distinct (map (signature lower) (map unbullet
        (extract_summary_bullets lower exact_quot (str ''Short. Short.'') 2 40 220)))"
proof -
  have s: "split_sentences (str ''Short. Short.'') = [str ''Short.'', str ''Short.'']"
    by (simp add: sent_ev)
  have r: "score_sentences exact_quot [str ''Short.'', str ''Short.'']
      = [(str ''Short.'', 32), (str ''Short.'', 32)]"
    by (simp add: tok_ev score_ev)
  have w: "walk_bullets lower exact_quot (str ''Short. Short.'') 2 40 220 = []"
    unfolding walk_bullets_def s r by (simp add: str_def)
  have e: "extract_summary_bullets lower exact_quot (str ''Short. Short.'') 2 40 220
     = [bullet @ str ''Short.'', bullet @ str ''Short.'']"
    by (simp add: extract_cases w s)
  show ?thesis unfolding e by (simp add: unbullet_bullet)
qed

text \<open>
  Claim C2. For every text and every \<open>k \<ge> 0\<close>: when the text has a sentence and the loop
  over the ranked sentences accepts none, \<open>extract_summary_bullets\<close> returns the first
  \<open>k\<close> sentences in the order of the text, each behind the bullet marker, unfiltered; in
  particular \<open>"Short. Also short."\<close> with \<open>k = 3\<close>, \<open>min_len = 40\<close>, \<open>max_len = 220\<close> gives
  the two bullets \<open>"Short."\<close> and \<open>"Also short."\<close>; and a text without a sentence gives the
  empty list.
\<close>

theorem extract_summary_bullets_fallback:
  fixes quot :: "nat \<Rightarrow> nat \<Rightarrow> 'r::linorder"
  shows
  "(split_sentences text \<noteq> [] \<and> walk_bullets low quot text k mn mx = [] \<longrightarrow>
      extract_summary_bullets low quot text k mn mx
        = map (\<lambda>s. bullet @ s) (take k (split_sentences text))) \<and>
   (split_sentences text = [] \<longrightarrow> extract_summary_bullets low quot text k mn mx = []) \<and>
   extract_summary_bullets low quot (str ''Short. Also short.'') 3 40 220
     = [bullet @ str ''Short.'', bullet @ str ''Also short.'']"
proof (intro conjI impI)
  assume "split_sentences text \<noteq> [] \<and> walk_bullets low quot text k mn mx = []"
  then show "extract_summary_bullets low quot text k mn mx
        = map (\<lambda>s. bullet @ s) (take k (split_sentences text))"
    by (simp add: extract_cases)
next
  assume e: "split_sentences text = []"
  have "score_sentences quot [] = []" by (simp add: score_sentences_def clean_tokens_def split_def sub_nonword_def)
  then have "walk_bullets low quot text k mn mx = []" by (simp add: walk_bullets_def e)
  then show "extract_summary_bullets low quot text k mn mx = []"
    by (simp add: extract_cases e)
next
  have s: "split_sentences (str ''Short. Also short.'') = [str ''Short.'', str ''Also short.'']"
    by (simp add: sent_ev)
  have t1: "clean_tokens (str ''Short.'') = [str ''short'']" by (simp add: tok_ev)
  have t2: "clean_tokens (str ''Also short.'') = [str ''short'']" by (simp add: tok_ev)
  have j: "clean_tokens (join (str '' '') [str ''Short.'', str ''Also short.''])
      = [str ''short'', str ''short'']"
    by (simp only: clean_tokens_join list.map concat.simps t1 t2 append.simps)
  have r: "score_sentences quot [str ''Short.'', str ''Also short.'']
      = [(str ''Short.'', quot 2 1), (str ''Also short.'', quot 2 1)]"
    unfolding score_sentences_def j by (simp add: t1 t2 Counter_def sort_reverse_def numeral_2_eq_2)
  have w: "walk_bullets low quot (str ''Short. Also short.'') 3 40 220 = []"
    unfolding walk_bullets_def s r by (simp add: str_def)
  show "extract_summary_bullets low quot (str ''Short. Also short.'') 3 40 220
     = [bullet @ str ''Short.'', bullet @ str ''Also short.'']"
    by (simp add: extract_cases w s)
qed

theorem extract_summary_bullets_fallback_witness:
  "split_sentences (str ''Short. Also short.'') \<noteq> [] \<and>
   walk_bullets lower exact_quot (str ''Short. Also short.'') 1 40 220 = [] \<and>
   extract_summary_bullets lower exact_quot (str ''Short. Also short.'') 1 40 220
     = [bullet @ str ''Short.''] \<and>
   split_sentences (str ''  '') = [] \<and>
   extract_summary_bullets lower exact_quot (str ''  '') 3 40 220 = []"
proof -
  have s: "split_sentences (str ''Short. Also short.'') = [str ''Short.'', str ''Also short.'']"
    by (simp add: sent_ev)
  have r: "score_sentences exact_quot [str ''Short.'', str ''Also short.'']
      = [(str ''Short.'', 32), (str ''Also short.'', 32)]"
    by (simp add: tok_ev score_ev)
  have w: "walk_bullets lower exact_quot (str ''Short. Also short.'') 1 40 220 = []"
    unfolding walk_bullets_def s r by (simp add: str_def)
  have e: "split_sentences (str ''  '') = []"
    by (simp add: sent_ev)
  show ?thesis
    using extract_summary_bullets_fallback [of "str ''Short. Also short.''" lower exact_quot 1 40 220]
      extract_summary_bullets_fallback [of "str ''  ''" lower exact_quot 3 40 220] w e
    unfolding s by simp
qed

text \<open>
  The loop accepts nothing exactly when every ranked sentence fails the length test: the
  first sentence that passes it meets an empty set of signatures.
\<close>

lemma select_loop_keeps:
  "bullets \<noteq> [] \<Longrightarrow> select_loop low k mn mx ranked bullets used \<noteq> []"
proof (induction ranked arbitrary: bullets used)
  case Nil
  then show ?case by simp
next
  case (Cons p ranked)
  obtain s sc where p: "p = (s, sc)" by (cases p)
  show ?case
    using Cons.prems Cons.IH [of bullets used]
      Cons.IH [of "bullets @ [bullet @ s]" "insert (low (take 40 s)) used"]
    by (auto simp: p Let_def)
qed

lemma select_loop_empty_iff:
  "select_loop low k mn mx ranked [] {} = [] \<longleftrightarrow>
     (\<forall>(s, sc) \<in> set ranked. length s < mn \<or> mx < length s)"
proof (induction ranked)
  case Nil
  show ?case by simp
next
  case (Cons p ranked)
  obtain s sc where p: "p = (s, sc)" by (cases p)
  show ?case
    using Cons.IH select_loop_keeps [of "[bullet @ s]" low k mn mx ranked "{low (take 40 s)}"]
    by (auto simp: p Let_def)
qed

section \<open>Degenerate inputs\<close>

text \<open>
  None of the five functions has a failing path: they raise nowhere, and the one division,
  in \<open>score_sentences\<close>, has the divisor \<open>len(toks) ** 0.8\<close> of a sentence with at least
  one token. So each of them is a total function here, and what is left to prove is what
  it returns on the degenerate inputs. Segmenting loses no word: the tokens of the
  sentences of a text, in order, are the tokens of the text.
\<close>

lemma sub_nonword_space: "isspace c \<Longrightarrow> sub_nonword (a @ c # b) = sub_nonword a @ c # sub_nonword b"
  by (simp add: sub_nonword_def word_class_def)

lemma words_space: "isspace c \<Longrightarrow> words (a @ c # b) = words a @ words b"
  by (simp add: words_def sub_nonword_space split_space)

lemma words_Nil: "words [] = []"
  by (simp add: words_def sub_nonword_def split_def)

lemma words_leading: "\<forall>c \<in> set a. isspace c \<Longrightarrow> words (a @ b) = words b"
proof (induction a)
  case Nil
  show ?case by simp
next
  case (Cons c a)
  then have "words ([] @ c # (a @ b)) = words [] @ words (a @ b)"
    by (intro words_space) simp
  with Cons show ?case by (simp add: words_Nil)
qed

lemma words_spaces: "\<forall>c \<in> set a. isspace c \<Longrightarrow> words a = []"
  using words_leading [of a "[]"] by (simp add: words_Nil)

lemma words_trailing: "\<forall>c \<in> set b. isspace c \<Longrightarrow> words (a @ b) = words a"
proof (cases b)
  case Nil
  then show ?thesis by simp
next
  case (Cons c b')
  assume sp: "\<forall>c \<in> set b. isspace c"
  then have "words (a @ c # b') = words a @ words b'"
    using Cons by (intro words_space) simp
  moreover have "words b' = []" using sp Cons by (intro words_spaces) simp
  ultimately show ?thesis using Cons by simp
qed

lemma words_dropWhile: "words (dropWhile isspace s) = words s"
proof -
  have "words (takeWhile isspace s @ dropWhile isspace s) = words (dropWhile isspace s)"
    by (rule words_leading) (auto dest: set_takeWhileD)
  then show ?thesis by simp
qed

lemma words_strip: "words (strip p) = words p"
proof -
  let ?y = "dropWhile isspace p"
  have "?y = rev (takeWhile isspace (rev ?y) @ dropWhile isspace (rev ?y))"
    by simp
  also have "\<dots> = strip p @ rev (takeWhile isspace (rev ?y))"
    by (simp only: rev_append strip_def strip_with_def)
  finally have y: "?y = strip p @ rev (takeWhile isspace (rev ?y))" .
  have "words (strip p @ rev (takeWhile isspace (rev ?y))) = words (strip p)"
    by (rule words_trailing) (auto dest: set_takeWhileD)
  with y have "words ?y = words (strip p)" by simp
  then show ?thesis by (simp add: words_dropWhile)
qed

lemma words_re_split_run:
  "concat (map words (re_split_run prev cur s)) = words (rev cur @ s)"
proof (induction prev cur s rule: re_split_run.induct)
  case (1 prev cur)
  show ?case by simp
next
  case (2 prev cur c cs)
  show ?case
  proof (cases "prev \<and> isspace c")
    case True
    then have "concat (map words (re_split_run prev cur (c # cs)))
        = words (rev cur) @ words (dropWhile isspace cs)"
      using 2(1) by simp
    also have "\<dots> = words (rev cur @ c # cs)"
      using True by (simp add: words_dropWhile words_space)
    finally show ?thesis .
  next
    case False
    then show ?thesis using 2(2) by auto
  qed
qed

lemma words_sentences: "concat (map words (split_sentences text)) = words text"
proof -
  have "concat (map words (map strip (filter (\<lambda>p. strip p \<noteq> []) parts)))
      = concat (map words parts)" for parts
  proof (induction parts)
    case Nil
    show ?case by simp
  next
    case (Cons p parts)
    show ?case
    proof (cases "strip p = []")
      case True
      then have "words p = []"
        by (intro words_spaces) (simp add: strip_def strip_with_empty_iff)
      with True Cons show ?thesis by simp
    next
      case False
      with Cons show ?thesis by (simp add: words_strip)
    qed
  qed
  then show ?thesis
    by (simp add: split_sentences_def re_split_def words_re_split_run)
qed

lemma clean_tokens_words:
  "clean_tokens s = filter (\<lambda>w. w \<noteq> [] \<and> w \<notin> STOPWORDS \<and> \<not> isdigit w)
                      (map (\<lambda>w. strip_with (\<lambda>c. c = 39) (lower w)) (words s))"
  by (simp add: clean_tokens_def words_def)

lemma clean_tokens_sentences:
  "concat (map clean_tokens (split_sentences text)) = clean_tokens text"
proof -
  have "concat (map clean_tokens xs)
      = filter (\<lambda>w. w \<noteq> [] \<and> w \<notin> STOPWORDS \<and> \<not> isdigit w)
          (map (\<lambda>w. strip_with (\<lambda>c. c = 39) (lower w)) (concat (map words xs)))" for xs
    by (induction xs) (simp_all add: clean_tokens_words)
  then show ?thesis by (simp add: words_sentences clean_tokens_words)
qed

lemma clean_tokens_spaces: "\<forall>c \<in> set text. isspace c \<Longrightarrow> clean_tokens text = []"
  by (simp add: clean_tokens_words words_spaces)

lemma no_sentences_iff: "split_sentences text = [] \<longleftrightarrow> (\<forall>c \<in> set text. isspace c)"
proof
  assume "split_sentences text = []"
  then have "filter (\<lambda>c. \<not> isspace c) text = []"
    using sentences_content [of "re_split text"]
    by (simp add: split_sentences_def re_split_def re_split_run_content)
  then show "\<forall>c \<in> set text. isspace c" by (simp add: filter_empty_conv)
next
  assume a: "\<forall>c \<in> set text. isspace c"
  then have "re_split text = [text]"
    by (simp add: re_split_def re_split_run_whole spaces_no_split_point)
  moreover have "strip text = []" using a by (simp add: strip_def strip_with_empty_iff)
  ultimately show "split_sentences text = []" by (simp add: split_sentences_def)
qed

lemma keyword_top_n_no_tokens: "clean_tokens text = [] \<Longrightarrow> keyword_top_n text n = []"
  by (simp add: keyword_top_n_def most_common_def Counter_def sort_reverse_def)

lemma score_sentences_no_tokens:
  "clean_tokens text = [] \<Longrightarrow> score_sentences quot (split_sentences text) = []"
  by (simp add: score_sentences_def clean_tokens_join clean_tokens_sentences)

text \<open>
  Claim C9, as amended. Each of the five functions returns a result on every input. On the
  empty string, on a string of whitespace only and on a string with no sentences (they
  are the same strings) each of the five returns the empty list. On a string with no
  tokens \<open>clean_tokens\<close>, \<open>keyword_top_n\<close> and \<open>score_sentences\<close>, on its sentences, return
  the empty list; in particular \<open>keyword_top_n("", 5)\<close> is the empty list.
\<close>

theorem degenerate_inputs:
  fixes quot :: "nat \<Rightarrow> nat \<Rightarrow> 'r::linorder"
  shows
  "((\<forall>c \<in> set text. isspace c) \<or> split_sentences text = [] \<longrightarrow>
      clean_tokens text = [] \<and> keyword_top_n text n = [] \<and> split_sentences text = [] \<and>
      score_sentences quot (split_sentences text) = [] \<and>
      extract_summary_bullets low quot text k mn mx = []) \<and>
   (clean_tokens text = [] \<longrightarrow>
      keyword_top_n text n = [] \<and> score_sentences quot (split_sentences text) = []) \<and>
   keyword_top_n (str '''') 5 = []"
proof (intro conjI impI)
  assume "(\<forall>c \<in> set text. isspace c) \<or> split_sentences text = []"
  then have sp: "\<forall>c \<in> set text. isspace c" and ns: "split_sentences text = []"
    by (auto simp: no_sentences_iff)
  show toks: "clean_tokens text = []" by (rule clean_tokens_spaces [OF sp])
  show "keyword_top_n text n = []" by (rule keyword_top_n_no_tokens [OF toks])
  show "split_sentences text = []" by (rule ns)
  show sc: "score_sentences quot (split_sentences text) = []"
    by (rule score_sentences_no_tokens [OF toks])
  show "extract_summary_bullets low quot text k mn mx = []"
    using sc by (simp add: extract_summary_bullets_def ns)
next
  assume toks: "clean_tokens text = []"
  show "keyword_top_n text n = []" by (rule keyword_top_n_no_tokens [OF toks])
  show "score_sentences quot (split_sentences text) = []"
    by (rule score_sentences_no_tokens [OF toks])
next
  have "clean_tokens (str '''') = []" by (simp add: clean_tokens_spaces str_def)
  then show "keyword_top_n (str '''') 5 = []" by (rule keyword_top_n_no_tokens)
qed

theorem degenerate_inputs_witness:
  "list_all isspace (str ''  '') \<and>
   clean_tokens (str ''  '') = [] \<and> keyword_top_n (str ''  '') 5 = [] \<and>
   split_sentences (str ''  '') = [] \<and>
   score_sentences exact_quot (split_sentences (str ''  '')) = [] \<and>
   extract_summary_bullets lower exact_quot (str ''  '') 5 40 220 = [] \<and>
   clean_tokens (str ''123.'') = [] \<and> keyword_top_n (str ''123.'') 5 = [] \<and>
   score_sentences exact_quot (split_sentences (str ''123.'')) = []"
proof -
  have sp: "\<forall>c \<in> set (str ''  ''). isspace c"
    by (simp add: str_def isspace_def)
  have nt: "clean_tokens (str ''123.'') = []"
    by (simp add: tok_ev)
  show ?thesis
    using degenerate_inputs [of "str ''  ''" 5 exact_quot lower 5 40 220]
      degenerate_inputs [of "str ''123.''" 5 exact_quot lower 5 40 220] sp nt
    unfolding list_all_iff by blast
qed

text \<open>
  The claim as first stated also promises an empty result of every function on a string
  with no tokens. Such a string can have sentences, and then \<open>split_sentences\<close> returns
  them and \<open>extract_summary_bullets\<close> returns them through its fallback.
\<close>

theorem no_tokens_fallback:
  "clean_tokens (str ''123.'') = [] \<and>
   split_sentences (str ''123.'') = [str ''123.''] \<and>
   extract_summary_bullets lower exact_quot (str ''123.'') 5 40 220 = [bullet @ str ''123.'']"
proof -
  have nt: "clean_tokens (str ''123.'') = []"
    by (simp add: tok_ev)
  have s: "split_sentences (str ''123.'') = [str ''123.'']"
    by (simp add: sent_ev)
  have "score_sentences exact_quot (split_sentences (str ''123.'')) = []"
    by (rule score_sentences_no_tokens [OF nt])
  then have "walk_bullets lower exact_quot (str ''123.'') 5 40 220 = []"
    by (simp add: walk_bullets_def)
  then have "extract_summary_bullets lower exact_quot (str ''123.'') 5 40 220 = [bullet @ str ''123.'']"
    by (simp add: extract_cases s)
  with nt s show ?thesis by simp
qed

end
